theory Spec2Isabelle
  imports Complex_Main
begin

section \<open>Client side: the start-scan request (api.js, Dashboard.jsx)\<close>

text \<open>
  A JavaScript promise settles in one of two ways. The outcome of
  \<^verbatim>\<open>axios.post(`${BASE_URL}/scan/${drive}`)\<close> is an input of the model: the network
  is a function from the requested URL to the settled promise (axios rejects on a
  transport error and on every status outside 2xx).
\<close>

datatype 'a promise = Fulfilled 'a | Rejected string

text \<open>What \<^verbatim>\<open>startScan\<close> resolves with: \<^verbatim>\<open>response.data\<close>, or the object
  \<^verbatim>\<open>{ error: "Scan initiation failed" }\<close>.\<close>

datatype 'a scan_reply = Data 'a | ErrorObject string

definition BASE_URL :: string where
  "BASE_URL = ''http://127.0.0.1:8000''"

definition startScan :: "(string \<Rightarrow> 'a promise) \<Rightarrow> string \<Rightarrow> 'a scan_reply promise" where
  "startScan post drive =
     (case post (BASE_URL @ ''/scan/'' @ drive) of
        Fulfilled response_data \<Rightarrow> Fulfilled (Data response_data)
      | Rejected error \<Rightarrow> Fulfilled (ErrorObject ''Scan initiation failed''))"

text \<open>
  \<^verbatim>\<open>handleStartScan\<close> of Dashboard.jsx: the \<^verbatim>\<open>.then\<close> callback stores
  "Starting..." under the drive, the \<^verbatim>\<open>.catch\<close> callback only logs.
\<close>

definition handleStartScan ::
  "(string \<Rightarrow> 'a promise) \<Rightarrow> (string \<rightharpoonup> string) \<Rightarrow> string \<Rightarrow> (string \<rightharpoonup> string)" where
  "handleStartScan post scanStatuses drive =
     (case startScan post drive of
        Fulfilled res \<Rightarrow> scanStatuses(drive \<mapsto> ''Starting...'')
      | Rejected err \<Rightarrow> scanStatuses)"

section \<open>Client side: reconnection (socket.js, WebSocketContext.jsx)\<close>

text \<open>
  \<^verbatim>\<open>connectWebSocket\<close> of socket.js keeps the counter \<^verbatim>\<open>reconnectAttempts\<close> in its
  closure. The model adds three observations: how many times \<^verbatim>\<open>setTimeout(connect, 5000)\<close>
  has been called, whether a socket still exists whose handlers can fire, and whether
  the "Giving up" line has been logged.
\<close>

datatype ws_event = Open | Close nat

record reconnect =
  reconnectAttempts :: nat
  scheduled :: nat
  live :: bool
  gave_up :: bool

definition maxReconnectAttempts :: nat where
  "maxReconnectAttempts = 10"

definition connected0 :: reconnect where
  "connected0 = \<lparr>reconnectAttempts = 0, scheduled = 0, live = True, gave_up = False\<rparr>"

definition onopen :: "reconnect \<Rightarrow> reconnect" where
  "onopen s = s\<lparr>reconnectAttempts := 0\<rparr>"

definition onclose :: "reconnect \<Rightarrow> nat \<Rightarrow> reconnect" where
  "onclose s code =
     (if code \<noteq> 1000 \<and> reconnectAttempts s < maxReconnectAttempts
      then s\<lparr>reconnectAttempts := reconnectAttempts s + 1, scheduled := scheduled s + 1\<rparr>
      else if reconnectAttempts s \<ge> maxReconnectAttempts
      then s\<lparr>live := False, gave_up := True\<rparr>
      else s\<lparr>live := False\<rparr>)"

text \<open>Events of a socket that no longer exists cannot arrive; the model skips them.\<close>

fun handle :: "reconnect \<Rightarrow> ws_event \<Rightarrow> reconnect" where
  "handle s Open = (if live s then onopen s else s)"
| "handle s (Close code) = (if live s then onclose s code else s)"

definition run :: "reconnect \<Rightarrow> ws_event list \<Rightarrow> reconnect" where
  "run s evs = foldl handle s evs"

text \<open>
  The provider of WebSocketContext.jsx: its \<^verbatim>\<open>onclose\<close> schedules a reconnect with
  \<^verbatim>\<open>setTimeout\<close> on every close whose code is not 1000, with no bound on the number of
  attempts, and the timer callback increments \<^verbatim>\<open>retryCount\<close> before it connects again;
  \<^verbatim>\<open>onopen\<close> sets \<^verbatim>\<open>retryCount\<close> to 0. The length of the delay is not modelled.
\<close>

record provider =
  retryCount :: nat
  p_scheduled :: nat
  p_live :: bool

definition p_onclose :: "provider \<Rightarrow> nat \<Rightarrow> provider" where
  "p_onclose s code =
     (if code \<noteq> 1000
      then s\<lparr>retryCount := retryCount s + 1, p_scheduled := p_scheduled s + 1\<rparr>
      else s\<lparr>p_live := False\<rparr>)"

definition provider0 :: provider where
  "provider0 = \<lparr>retryCount = 0, p_scheduled = 0, p_live = True\<rparr>"

fun p_handle :: "provider \<Rightarrow> ws_event \<Rightarrow> provider" where
  "p_handle s Open = (if p_live s then s\<lparr>retryCount := 0\<rparr> else s)"
| "p_handle s (Close code) = (if p_live s then p_onclose s code else s)"

definition p_run :: "provider \<Rightarrow> ws_event list \<Rightarrow> provider" where
  "p_run s evs = foldl p_handle s evs"

section \<open>Backend: the arithmetic of the progress value (scan.py)\<close>

text \<open>
  The scan computes \<^verbatim>\<open>progress = int((scanned / total_size) * 100)\<close>. In Python 3
  \<^verbatim>\<open>/\<close> on two integers is true division: the result is the binary64 number nearest
  to the exact quotient (ties to even), and it raises \<^verbatim>\<open>ZeroDivisionError\<close> on a zero
  divisor. The product with \<^verbatim>\<open>100\<close> is a binary64 multiplication, rounded the same
  way, and \<^verbatim>\<open>int\<close> truncates. The model keeps a non-negative binary64 number as a
  pair of a significand and an exponent, its value being \<open>mant * 2 ^ expo\<close>, and computes
  with integers only. Exponents are not bounded: the quotients of the scan lie between
  \<open>2\<^sup>-\<^sup>6\<^sup>3\<close> and \<open>2\<^sup>1\<^sup>0\<close> for every file size that fits \<^verbatim>\<open>st_size\<close>, far inside
  the normal range of binary64, where no overflow or gradual underflow occurs.
\<close>

datatype exn =
  FileNotFoundError | PermissionError | ZeroDivisionError | WebSocketClosedError | NameError

record float =
  mant :: nat
  expo :: int

text \<open>\<^verbatim>\<open>int.bit_length\<close>.\<close>

fun bit_length :: "nat \<Rightarrow> nat" where
  "bit_length n = (if n = 0 then 0 else Suc (bit_length (n div 2)))"

text \<open>\<open>pow2 k\<close> is \<open>2 ^ k\<close> for \<open>k \<ge> 0\<close> and \<open>1\<close> otherwise: a scaling by \<open>2 ^ k\<close> is
  written as a multiplication by \<open>pow2 k\<close> on one side and by \<open>pow2 (- k)\<close> on the other.\<close>

definition pow2 :: "int \<Rightarrow> nat" where
  "pow2 k = 2 ^ nat k"

text \<open>The integer nearest to \<open>n / d\<close>, ties to the even one.\<close>

definition round_half_even :: "nat \<Rightarrow> nat \<Rightarrow> nat" where
  "round_half_even n d =
     (let q = n div d; r = n mod d
      in if 2 * r < d then q
         else if 2 * r > d then q + 1
         else if even q then q else q + 1)"

text \<open>
  The binary64 number nearest to \<open>n / d\<close>: \<open>f\<close> is \<open>\<lfloor>log\<^sub>2 (n / d)\<rfloor>\<close>, found from the bit
  lengths, and the quotient is rounded to 53 significant bits. When the rounding
  carries, the significand is \<open>2 ^ 53\<close> with the exponent unchanged: the same number as
  \<open>2 ^ 52\<close> with the next exponent.
\<close>

definition nearest_float :: "nat \<Rightarrow> nat \<Rightarrow> float" where
  "nearest_float n d =
     (if n = 0 then \<lparr>mant = 0, expo = 0\<rparr>
      else
        let k = int (bit_length n) - int (bit_length d);
            f = (if d * pow2 k \<le> n * pow2 (- k) then k else k - 1);
            e = f - 52
        in \<lparr>mant = round_half_even (n * pow2 (- e)) (d * pow2 e), expo = e\<rparr>)"

definition float_of_int :: "nat \<Rightarrow> float" where
  "float_of_int n = nearest_float n 1"

definition truediv :: "nat \<Rightarrow> nat \<Rightarrow> exn + float" where
  "truediv a b = (if b = 0 then Inl ZeroDivisionError else Inr (nearest_float a b))"

definition fmul :: "float \<Rightarrow> float \<Rightarrow> float" where
  "fmul x y =
     (let e = expo x + expo y
      in nearest_float (mant x * mant y * pow2 e) (pow2 (- e)))"

definition py_int :: "float \<Rightarrow> int" where
  "py_int x = int (mant x * pow2 (expo x) div pow2 (- expo x))"

definition percent :: "nat \<Rightarrow> nat \<Rightarrow> exn + int" where
  "percent scanned total_size =
     (case truediv scanned total_size of
        Inl e \<Rightarrow> Inl e
      | Inr ratio \<Rightarrow> Inr (py_int (fmul ratio (float_of_int 100))))"

text \<open>The real number a pair stands for; used in the proofs only.\<close>

definition valof :: "float \<Rightarrow> real" where
  "valof x = real (mant x) * 2 powi expo x"

section \<open>Backend: the scan and the fan-out (scan.py, websocket\_handler.py)\<close>

text \<open>
  What the scan reads from its environment: the size \<^verbatim>\<open>os.stat\<close> reports, whether
  \<^verbatim>\<open>open\<close> succeeds, and at which offsets \<^verbatim>\<open>f.seek(scanned); f.read(sector_size)\<close>
  raises. The file system maps a path to such a file, or to nothing.
\<close>

record device =
  st_size :: nat
  openable :: bool
  read_fails :: "nat \<Rightarrow> bool"

text \<open>The JSON object \<^verbatim>\<open>send_progress_update\<close> builds, by its keys.\<close>

record message =
  event :: string
  drive :: string
  progress :: int
  bad_sectors :: nat

text \<open>
  A member of \<^verbatim>\<open>connected_clients\<close>. Tornado's \<^verbatim>\<open>write_message\<close> raises
  \<^verbatim>\<open>WebSocketClosedError\<close> on a connection that is closing or closed; the handler's
  \<^verbatim>\<open>on_close\<close> removes the client from the set only when the event loop runs it.
  The set is iterated in some order: the model has it as a list.
\<close>

record ws_client =
  ident :: nat
  is_closing :: bool

definition write_message :: "ws_client \<Rightarrow> message \<Rightarrow> exn + (nat \<times> message)" where
  "write_message client m =
     (if is_closing client then Inl WebSocketClosedError else Inr (ident client, m))"

text \<open>\<^verbatim>\<open>for client in connected_clients: client.write_message(message)\<close>: the
  deliveries made, and the exception that ended the loop, if any.\<close>

fun for_clients :: "ws_client list \<Rightarrow> message \<Rightarrow> (nat \<times> message) list \<times> exn option" where
  "for_clients [] m = ([], None)"
| "for_clients (client # rest) m =
     (case write_message client m of
        Inl e \<Rightarrow> ([], Some e)
      | Inr delivery \<Rightarrow> (case for_clients rest m of (ds, r) \<Rightarrow> (delivery # ds, r)))"

definition send_progress_update ::
  "ws_client list \<Rightarrow> string \<Rightarrow> int \<Rightarrow> nat \<Rightarrow> (nat \<times> message) list \<times> exn option" where
  "send_progress_update connected_clients drv prog bad =
     for_clients connected_clients
       \<lparr>event = ''scan_progress'', drive = drv, progress = prog, bad_sectors = bad\<rparr>"

definition sector_size :: nat where
  "sector_size = 512"

text \<open>
  One pass through the body of the \<^verbatim>\<open>while\<close> loop, up to the
  \<^verbatim>\<open>await asyncio.sleep(0.1)\<close>: the counters after it, the message handed to
  \<^verbatim>\<open>send_progress_update\<close>, the deliveries made, and the exception that left the body.
  A failed read is caught inside the body and counted.
\<close>

record tick =
  scanned_after :: nat
  bad_after :: nat
  published :: "message list"
  delivered :: "(nat \<times> message) list"
  raised :: "exn option"

definition loop_body :: "device \<Rightarrow> ws_client list \<Rightarrow> string \<Rightarrow> nat \<Rightarrow> nat \<Rightarrow> tick" where
  "loop_body f connected_clients drv scanned bad =
     (let bad' = (if read_fails f scanned then bad + 1 else bad);
          scanned' = scanned + sector_size
      in case percent scanned' (st_size f) of
           Inl e \<Rightarrow> \<lparr>scanned_after = scanned', bad_after = bad', published = [],
                     delivered = [], raised = Some e\<rparr>
         | Inr prog \<Rightarrow>
             (case send_progress_update connected_clients drv prog bad' of
                (ds, r) \<Rightarrow>
                  \<lparr>scanned_after = scanned', bad_after = bad',
                   published = [\<lparr>event = ''scan_progress'', drive = drv, progress = prog,
                                 bad_sectors = bad'\<rparr>],
                   delivered = ds, raised = r\<rparr>))"

text \<open>The dictionary \<^verbatim>\<open>scan_drive\<close> returns: \<^verbatim>\<open>{"success": True, "bad_sectors": n}\<close>
  or \<^verbatim>\<open>{"success": False, "error": str(e)}\<close>.\<close>

datatype result = Success nat | Failure exn

text \<open>The loop, run without interruption: the passes made and the value returned. An
  exception in the body is caught by the outer \<^verbatim>\<open>except Exception\<close>.\<close>

function scan_loop ::
  "device \<Rightarrow> ws_client list \<Rightarrow> string \<Rightarrow> nat \<Rightarrow> nat \<Rightarrow> tick list \<times> result" where
  "scan_loop f connected_clients drv scanned bad =
     (if scanned < st_size f then
        (let t = loop_body f connected_clients drv scanned bad
         in case raised t of
              Some e \<Rightarrow> ([t], Failure e)
            | None \<Rightarrow>
                (case scan_loop f connected_clients drv (scanned + sector_size) (bad_after t) of
                   (ts, r) \<Rightarrow> (t # ts, r)))
      else ([], Success bad))"
  by pat_completeness auto
termination
  by (relation "measure (\<lambda>(f, cs, drv, scanned, bad). st_size f - scanned)")
     (auto simp: sector_size_def)

text \<open>\<^verbatim>\<open>os.stat\<close> is called before the \<^verbatim>\<open>try\<close>: its exception leaves
  \<^verbatim>\<open>scan_drive\<close>. A failure of \<^verbatim>\<open>open\<close> is caught.\<close>

definition scan_drive ::
  "(string \<Rightarrow> device option) \<Rightarrow> ws_client list \<Rightarrow> string \<Rightarrow> exn + (tick list \<times> result)" where
  "scan_drive fs connected_clients drv =
     (case fs (''/dev/'' @ drv) of
        None \<Rightarrow> Inl FileNotFoundError
      | Some f \<Rightarrow>
          if openable f then Inr (scan_loop f connected_clients drv 0 0)
          else Inr ([], Failure PermissionError))"

section \<open>Backend: the request handler on the event loop (main.py)\<close>

text \<open>
  \<^verbatim>\<open>ScanHandler.post\<close> is a coroutine: \<^verbatim>\<open>result = await scan_drive(drive)\<close> followed
  by \<^verbatim>\<open>self.write(json.dumps(result, indent=4))\<close>. It runs on Tornado's single-threaded
  event loop and gives control back at every \<^verbatim>\<open>await asyncio.sleep(0.1)\<close>, where other
  handlers run. The server state holds the coroutines suspended in that sleep, with
  their local variables, what has been written to the WebSocket clients, the values
  \<^verbatim>\<open>scan_drive\<close> has returned to its handlers, and how each finished handler has answered
  its caller: with the body it wrote, or, when an exception left it, with the status
  500 that Tornado sends.
\<close>

record coroutine =
  co_drive :: string
  co_file :: device
  co_scanned :: nat
  co_bad :: nat

datatype response = Written result | Uncaught exn

record server =
  files :: "string \<Rightarrow> device option"
  connected_clients :: "ws_client list"
  sleeping :: "coroutine list"
  wire :: "(nat \<times> message) list"
  returned :: "(string \<times> result) list"
  responses :: "(string \<times> response) list"

text \<open>
  main.py imports \<^verbatim>\<open>os\<close>, \<^verbatim>\<open>tornado.ioloop\<close>, \<^verbatim>\<open>tornado.web\<close>,
  \<^verbatim>\<open>tornado.websocket\<close>, \<^verbatim>\<open>asyncio\<close>, \<^verbatim>\<open>logging\<close> and four names of its own
  modules. It does not import \<^verbatim>\<open>json\<close>: in the handler the name is unbound and
  \<^verbatim>\<open>json.dumps\<close> raises \<^verbatim>\<open>NameError\<close>, whatever its argument.
\<close>

definition json_dumps :: "result \<Rightarrow> exn + result" where
  "json_dumps r = Inl NameError"

text \<open>\<^verbatim>\<open>scan_drive\<close> has returned \<open>r\<close> to the handler, which goes on to its last
  statement.\<close>

definition finish :: "server \<Rightarrow> string \<Rightarrow> result \<Rightarrow> server" where
  "finish srv drv r =
     (let srv' = srv\<lparr>returned := returned srv @ [(drv, r)]\<rparr>
      in case json_dumps r of
           Inl e \<Rightarrow> srv'\<lparr>responses := responses srv' @ [(drv, Uncaught e)]\<rparr>
         | Inr body \<Rightarrow> srv'\<lparr>responses := responses srv' @ [(drv, Written body)]\<rparr>)"

text \<open>A coroutine at the head of the loop runs until its next sleep or to its end.\<close>

definition loop_head :: "server \<Rightarrow> string \<Rightarrow> device \<Rightarrow> nat \<Rightarrow> nat \<Rightarrow> server" where
  "loop_head srv drv f scanned bad =
     (if scanned < st_size f then
        (let t = loop_body f (connected_clients srv) drv scanned bad;
             srv' = srv\<lparr>wire := wire srv @ delivered t\<rparr>
         in case raised t of
              Some e \<Rightarrow> finish srv' drv (Failure e)
            | None \<Rightarrow>
                srv'\<lparr>sleeping := sleeping srv' @
                  [\<lparr>co_drive = drv, co_file = f, co_scanned = scanned_after t,
                    co_bad = bad_after t\<rparr>]\<rparr>)
      else finish srv drv (Success bad))"

text \<open>A POST to \<^verbatim>\<open>/scan/<drive>\<close> arrives: the handler starts and runs to its first
  suspension, or to its end. The exception of \<^verbatim>\<open>os.stat\<close> leaves \<^verbatim>\<open>scan_drive\<close> and
  the handler.\<close>

definition ScanHandler_post :: "server \<Rightarrow> string \<Rightarrow> server" where
  "ScanHandler_post srv drv =
     (case files srv (''/dev/'' @ drv) of
        None \<Rightarrow> srv\<lparr>responses := responses srv @ [(drv, Uncaught FileNotFoundError)]\<rparr>
      | Some f \<Rightarrow>
          if openable f then loop_head srv drv f 0 0
          else finish srv drv (Failure PermissionError))"


section \<open>Concrete inputs\<close>

text \<open>
  Files, file systems and clients on which the results below are evaluated: a file of
  a given size whose reads fail at the listed offsets, the file system that has it as
  \<^verbatim>\<open>/dev/sda\<close>, and a client whose connection is open.
\<close>

definition disk :: "nat \<Rightarrow> nat list \<Rightarrow> device" where
  "disk n bad_offsets =
     \<lparr>st_size = n, openable = True, read_fails = (\<lambda>offset. offset \<in> set bad_offsets)\<rparr>"

definition dev_sda :: "device \<Rightarrow> string \<Rightarrow> device option" where
  "dev_sda f path = (if path = ''/dev/sda'' then Some f else None)"

definition listener :: "nat \<Rightarrow> ws_client" where
  "listener n = \<lparr>ident = n, is_closing = False\<rparr>"

text \<open>A client whose connection has gone while it is still in the set, and a server
  on which nothing is running yet.\<close>

definition gone :: "nat \<Rightarrow> ws_client" where
  "gone n = \<lparr>ident = n, is_closing = True\<rparr>"

definition idle_server :: "device \<Rightarrow> ws_client list \<Rightarrow> server" where
  "idle_server f cs =
     \<lparr>files = dev_sda f, connected_clients = cs, sleeping = [], wire = [], returned = [],
      responses = []\<rparr>"

section \<open>Properties of the client\<close>

text \<open>
  C10. \<^verbatim>\<open>startScan\<close> always resolves: with the response body when the POST succeeds,
  with \<^verbatim>\<open>{error: "Scan initiation failed"}\<close> when it fails; it never rejects, so the
  Dashboard's rejection handler never runs and the drive is marked "Starting..."
  whatever the outcome of the request.
\<close>

theorem startScan_always_resolves:
  "startScan post drv =
     Fulfilled (case post (BASE_URL @ ''/scan/'' @ drv) of
                  Fulfilled d \<Rightarrow> Data d
                | Rejected e \<Rightarrow> ErrorObject ''Scan initiation failed'')
   \<and> startScan post drv \<noteq> Rejected err
   \<and> handleStartScan post scanStatuses drv = scanStatuses(drv \<mapsto> ''Starting...'')"
  by (simp add: startScan_def handleStartScan_def split: promise.splits)

lemma run_closes_from:
  assumes "\<forall>c \<in> set cs. c \<noteq> 1000" and "live s" and "reconnectAttempts s \<le> maxReconnectAttempts"
  shows "scheduled (run s (map Close cs))
           = scheduled s + min (length cs) (maxReconnectAttempts - reconnectAttempts s)
       \<and> live (run s (map Close cs)) = (length cs \<le> maxReconnectAttempts - reconnectAttempts s)
       \<and> gave_up (run s (map Close cs))
           = (gave_up s \<or> length cs > maxReconnectAttempts - reconnectAttempts s)"
  using assms
proof (induction cs arbitrary: s)
  case Nil
  then show ?case by (simp add: run_def)
next
  case (Cons c cs)
  have c: "c \<noteq> 1000" using Cons.prems(1) by simp
  have rest: "\<forall>c \<in> set cs. c \<noteq> 1000" using Cons.prems(1) by simp
  have unfold: "run s (map Close (c # cs)) = run (onclose s c) (map Close cs)"
    using Cons.prems(2) by (simp add: run_def)
  show ?case
  proof (cases "reconnectAttempts s < maxReconnectAttempts")
    case True
    let ?s = "onclose s c"
    have s': "live ?s" "reconnectAttempts ?s = reconnectAttempts s + 1"
      "scheduled ?s = scheduled s + 1" "gave_up ?s = gave_up s"
      using True c Cons.prems(2) by (simp_all add: onclose_def)
    have le: "reconnectAttempts ?s \<le> maxReconnectAttempts" using True s' by simp
    note ih = Cons.IH [OF rest s'(1) le]
    show ?thesis unfolding unfold using ih s' True by auto
  next
    case False
    then have eq: "reconnectAttempts s = maxReconnectAttempts" using Cons.prems(3) by simp
    let ?s = "onclose s c"
    have s': "\<not> live ?s" "scheduled ?s = scheduled s" "gave_up ?s"
      using eq by (simp_all add: onclose_def)
    have dead: "run t (map Close cs) = t" if "\<not> live t" for t
      using that by (induction cs) (simp_all add: run_def)
    show ?thesis unfolding unfold using dead [OF s'(1)] s' eq by simp
  qed
qed

lemma provider_normal_close:
  "p_scheduled (p_run p (Close 1000 # evs)) = p_scheduled p"
proof -
  have dead: "foldl p_handle t evs = t" if "\<not> p_live t" for t
    using that
  proof (induction evs)
    case Nil
    then show ?case by simp
  next
    case (Cons e evs)
    then show ?case by (cases e) simp_all
  qed
  have "\<not> p_live (p_handle p (Close 1000))"
    "p_scheduled (p_handle p (Close 1000)) = p_scheduled p"
    by (simp_all add: p_onclose_def)
  then show ?thesis using dead [of "p_handle p (Close 1000)"] by (simp add: p_run_def)
qed

text \<open>
  The machine of socket.js, with \<^verbatim>\<open>maxReconnectAttempts = 10\<close>: when the connection drops
  with a code other than 1000 and every reconnect attempt is closed again the same way,
  it schedules a reconnect after each of the first ten closes and none after that; on
  the eleventh close it logs that it gives up and no socket is left. A close with code
  1000 schedules no reconnect, in socket.js and in the provider alike.
\<close>

lemma reconnect_exactly_ten:
  assumes "\<forall>c \<in> set cs. c \<noteq> 1000"
  shows "scheduled (run connected0 (map Close cs)) = min (length cs) 10
       \<and> gave_up (run connected0 (map Close cs)) = (length cs > 10)
       \<and> live (run connected0 (map Close cs)) = (length cs \<le> 10)
       \<and> scheduled (run connected0 (Close 1000 # evs)) = 0
       \<and> p_scheduled (p_run p (Close 1000 # evs)) = p_scheduled p"
proof -
  have a: "live connected0" "reconnectAttempts connected0 \<le> maxReconnectAttempts"
    by (simp_all add: connected0_def)
  have closed: "run connected0 (Close 1000 # evs) = connected0\<lparr>live := False\<rparr>"
  proof -
    have dead: "foldl handle t evs = t" if "\<not> live t" for t
      using that
    proof (induction evs)
      case Nil
      then show ?case by simp
    next
      case (Cons e evs)
      then show ?case by (cases e) simp_all
    qed
    have "handle connected0 (Close 1000) = connected0\<lparr>live := False\<rparr>"
      by (simp add: connected0_def onclose_def maxReconnectAttempts_def)
    then show ?thesis using dead [of "connected0\<lparr>live := False\<rparr>"] by (simp add: run_def)
  qed
  from run_closes_from [OF assms a] closed show ?thesis
    by (simp add: connected0_def maxReconnectAttempts_def provider_normal_close)
qed

lemma reconnect_exactly_ten_instance:
  "(1006::nat) \<noteq> 1000
   \<and> scheduled (run connected0 (map Close (replicate 10 1006))) = 10
   \<and> \<not> gave_up (run connected0 (map Close (replicate 10 1006)))
   \<and> scheduled (run connected0 (map Close (replicate 11 1006))) = 10
   \<and> gave_up (run connected0 (map Close (replicate 11 1006)))
   \<and> \<not> live (run connected0 (map Close (replicate 11 1006)))
   \<and> scheduled (run connected0 [Close 1000]) = 0"
proof -
  have h10: "\<forall>c \<in> set (replicate 10 (1006::nat)). c \<noteq> 1000" by simp
  have h11: "\<forall>c \<in> set (replicate 11 (1006::nat)). c \<noteq> 1000" by simp
  show ?thesis
    using reconnect_exactly_ten [OF h10, of "[]"] reconnect_exactly_ten [OF h11, of "[]"]
    by simp
qed

text \<open>The provider never gives up: every abnormal close schedules one more reconnect.\<close>

lemma provider_unbounded:
  assumes "\<forall>c \<in> set cs. c \<noteq> 1000" and "p_live s"
  shows "p_scheduled (p_run s (map Close cs)) = p_scheduled s + length cs
       \<and> p_live (p_run s (map Close cs))"
  using assms
proof (induction cs arbitrary: s)
  case Nil
  then show ?case by (simp add: p_run_def)
next
  case (Cons c cs)
  let ?s = "p_onclose s c"
  have s': "p_live ?s" "p_scheduled ?s = p_scheduled s + 1"
    using Cons.prems by (simp_all add: p_onclose_def)
  have rest: "\<forall>c \<in> set cs. c \<noteq> 1000" using Cons.prems(1) by simp
  have "p_run s (map Close (c # cs)) = p_run ?s (map Close cs)"
    using Cons.prems(2) by (simp add: p_run_def)
  then show ?case using Cons.IH [OF rest s'(1)] s' by simp
qed

text \<open>
  C9. The provider, which is the machine the application mounts, has no bound on its
  attempts. After a drop and ten failed reconnects, eleven closes with code 1006 in
  all, socket.js has scheduled ten reconnects and has given up, while the provider has
  scheduled an eleventh and is still running.
\<close>

theorem provider_misses_attempt_bound:
  "scheduled (run connected0 (map Close (replicate 11 1006))) = 10
   \<and> gave_up (run connected0 (map Close (replicate 11 1006)))
   \<and> \<not> live (run connected0 (map Close (replicate 11 1006)))
   \<and> p_scheduled (p_run provider0 (map Close (replicate 11 1006))) = 11
   \<and> p_live (p_run provider0 (map Close (replicate 11 1006)))"
proof -
  have h: "\<forall>c \<in> set (replicate 11 (1006::nat)). c \<noteq> 1000" by simp
  have l: "p_live provider0" by (simp add: provider0_def)
  show ?thesis
    using reconnect_exactly_ten [OF h, of "[]"] provider_unbounded [OF h l]
    by (simp add: provider0_def)
qed

section \<open>The progress value stays in range\<close>

declare bit_length.simps [simp del]

lemma bit_length_0 [simp]: "bit_length 0 = 0" by (simp add: bit_length.simps)
lemma bit_length_Suc0 [simp]: "bit_length (Suc 0) = Suc 0" by (simp add: bit_length.simps)
lemma bit_length_numeral [simp]: "bit_length (numeral k) = Suc (bit_length (numeral k div 2))"
  by (subst bit_length.simps) simp



lemma bit_length_bounds:
  "0 < n \<Longrightarrow> 2 ^ (bit_length n - 1) \<le> n \<and> n < 2 ^ bit_length n"
proof (induction n rule: bit_length.induct)
  case (1 n)
  show ?case
  proof (cases "n div 2 = 0")
    case True
    with "1.prems" have "n = 1" by (simp add: div_eq_0_iff) 
    then show ?thesis by simp
  next
    case False
    then have pos: "0 < n div 2" by simp
    from "1.IH" [OF _ pos] "1.prems"
    have ih: "2 ^ (bit_length (n div 2) - 1) \<le> n div 2" "n div 2 < 2 ^ bit_length (n div 2)"
      by simp_all
    have bl: "bit_length n = Suc (bit_length (n div 2))"
      using "1.prems" by (subst bit_length.simps) simp
    have bpos: "0 < bit_length (n div 2)"
      using pos by (subst bit_length.simps) simp
    then have e: "2 ^ (bit_length n - 1) = 2 * (2::nat) ^ (bit_length (n div 2) - 1)"
      unfolding bl by (cases "bit_length (n div 2)") simp_all
    show ?thesis
      unfolding e using ih unfolding bl by (simp, linarith)
  qed
qed

lemma pow2_pos [simp]: "0 < pow2 k"
  by (simp add: pow2_def)

lemma pow2_nz [simp]: "pow2 k \<noteq> 0"
  by (simp add: pow2_def)

lemma pow2_ratio: "real (pow2 k) / real (pow2 (- k)) = 2 powi k"
proof (cases "0 \<le> k")
  case True
  then show ?thesis by (simp add: pow2_def power_int_nonneg_exp)
next
  case False
  then have "2 powi k = inverse ((2::real) powi (- k))" 
    by (simp add: power_int_minus)
  also have "\<dots> = inverse (2 ^ nat (- k))" using False by (simp add: power_int_nonneg_exp)
  finally show ?thesis using False by (simp add: pow2_def inverse_eq_divide)
qed

lemma two_powi_mult: "a + b = c \<Longrightarrow> (2::real) powi a * 2 powi b = 2 powi c"
  by (auto simp: power_int_add)

lemma scaled_ratio:
  assumes "0 < d"
  shows "real (n * pow2 (- e)) / real (d * pow2 e) = real n / real d * 2 powi (- e)"
proof -
  have "real (pow2 (- e)) / real (pow2 e) = 2 powi (- e)"
    using pow2_ratio [of "- e"] by simp
  then show ?thesis by (simp add: field_simps)
qed

lemma round_half_even_le:
  assumes "0 < d" and "n \<le> M * d"
  shows "round_half_even n d \<le> M"
proof -
  have q: "n div d \<le> M" using assms by (metis div_le_mono nonzero_mult_div_cancel_right less_numeral_extra(3))
  show ?thesis
  proof (cases "n div d = M")
    case True
    then have "n mod d = 0" using assms
      by (metis add_diff_cancel_left' diff_is_0_eq' mult.commute mult_div_mod_eq)
    then show ?thesis using True assms by (simp add: round_half_even_def Let_def)
  next
    case False
    then have "n div d < M" using q by simp
    then show ?thesis by (simp add: round_half_even_def Let_def)
  qed
qed

lemma round_half_even_ge: "M \<le> n div d \<Longrightarrow> M \<le> round_half_even n d"
  by (simp add: round_half_even_def Let_def)


lemma bit_length_real:
  assumes "0 < n"
  shows "2 powi (int (bit_length n) - 1) \<le> real n" and "real n < 2 powi int (bit_length n)"
proof -
  from bit_length_bounds [OF assms]
  have lo: "2 ^ (bit_length n - 1) \<le> n" and hi: "n < 2 ^ bit_length n" by simp_all
  have pos: "0 < bit_length n" using assms by (subst bit_length.simps) simp
  then have "int (bit_length n) - 1 = int (bit_length n - 1)" by simp
  then have "(2::real) powi (int (bit_length n) - 1) = 2 ^ (bit_length n - 1)"
    by (simp only: power_int_of_nat)
  also have "\<dots> = real (2 ^ (bit_length n - 1))" by simp
  also have "\<dots> \<le> real n" using lo by (simp only: of_nat_le_iff)
  finally show "2 powi (int (bit_length n) - 1) \<le> real n" .
  have "real n < real (2 ^ bit_length n)" using hi by (simp only: of_nat_less_iff)
  then show "real n < 2 powi int (bit_length n)" by simp
qed

lemma binade:
  assumes "0 < n" and "0 < d"
  defines "k \<equiv> int (bit_length n) - int (bit_length d)"
  defines "f \<equiv> (if d * pow2 k \<le> n * pow2 (- k) then k else k - 1)"
  shows "2 powi f \<le> real n / real d" and "real n / real d < 2 powi (f + 1)"
proof -
  have dpos: "0 < real d" using assms by simp
  have test: "(d * pow2 k \<le> n * pow2 (- k)) \<longleftrightarrow> 2 powi k \<le> real n / real d"
  proof -
    have "(d * pow2 k \<le> n * pow2 (- k)) \<longleftrightarrow> real (d * pow2 k) \<le> real (n * pow2 (- k))"
      by (simp only: of_nat_le_iff)
    also have "\<dots> \<longleftrightarrow> real (pow2 k) / real (pow2 (- k)) \<le> real n / real d"
      using dpos by (simp add: field_simps)
    finally show ?thesis by (simp only: pow2_ratio)
  qed
  have up: "real n / real d < 2 powi (k + 1)"
  proof -
    have "real n / real d < 2 powi int (bit_length n) / real d"
      using bit_length_real(2) [OF assms(1)] dpos by (simp add: divide_strict_right_mono)
    also have "\<dots> \<le> 2 powi int (bit_length n) / 2 powi (int (bit_length d) - 1)"
      using bit_length_real(1) [OF assms(2)] by (simp add: frac_le)
    also have "\<dots> = 2 powi (int (bit_length n) - (int (bit_length d) - 1))"
      by (subst power_int_diff) simp_all
    also have "int (bit_length n) - (int (bit_length d) - 1) = k + 1"
      by (simp add: k_def)
    finally show ?thesis .
  qed
  have lo: "2 powi (k - 1) \<le> real n / real d"
  proof -
    have "k - 1 = int (bit_length n) - 1 - int (bit_length d)"
      by (simp add: k_def)
    then have "(2::real) powi (k - 1) = 2 powi (int (bit_length n) - 1 - int (bit_length d))"
      by (rule arg_cong)
    also have "\<dots> = 2 powi (int (bit_length n) - 1) / 2 powi int (bit_length d)"
      by (subst power_int_diff) simp_all
    also have "\<dots> \<le> real n / 2 powi int (bit_length d)"
      using bit_length_real(1) [OF assms(1)] by (simp add: divide_right_mono)
    also have "\<dots> \<le> real n / real d"
      using bit_length_real(2) [OF assms(2)] dpos by (simp add: frac_le)
    finally show ?thesis .
  qed
  show "2 powi f \<le> real n / real d" using test lo by (simp add: f_def)
  show "real n / real d < 2 powi (f + 1)" using test up by (auto simp: f_def)
qed

lemma nearest_float_le:
  assumes "0 < d" and "real n / real d \<le> real M * 2 powi (fB - 52)" and "2 ^ 52 \<le> M" and "M < 2 ^ 53"
  shows "valof (nearest_float n d) \<le> real M * 2 powi (fB - 52)"
proof (cases "n = 0")
  case True
  then show ?thesis by (simp add: nearest_float_def valof_def)
next
  case False
  then have npos: "0 < n" by simp
  define k where "k = int (bit_length n) - int (bit_length d)"
  define f where "f = (if d * pow2 k \<le> n * pow2 (- k) then k else k - 1)"
  define e where "e = f - 52"
  let ?N = "n * pow2 (- e)" and ?D = "d * pow2 e"
  have nf: "nearest_float n d = \<lparr>mant = round_half_even ?N ?D, expo = e\<rparr>"
    using False by (simp add: nearest_float_def Let_def k_def f_def e_def)
  have lo: "2 powi f \<le> real n / real d"
    unfolding f_def k_def by (rule binade(1) [OF npos assms(1)])
  have hi: "real n / real d < 2 powi (f + 1)"
    unfolding f_def k_def by (rule binade(2) [OF npos assms(1)])
  have Dpos: "0 < ?D" using assms(1) by simp
  have ratio: "real ?N / real ?D = real n / real d * 2 powi (- e)"
    by (rule scaled_ratio [OF assms(1)])
  have Mreal: "real M < 2 ^ 53" "2 ^ 52 \<le> real M"
    using assms(3,4) by (metis of_nat_less_iff of_nat_numeral of_nat_power, metis of_nat_le_iff of_nat_numeral of_nat_power)
  have "2 powi f < (2::real) powi (fB + 1)"
  proof -
    have "real M * 2 powi (fB - 52) < 2 ^ 53 * 2 powi (fB - 52)"
      using Mreal(1) by (simp add: mult_strict_right_mono)
    also have "\<dots> = 2 powi 53 * 2 powi (fB - 52)" by simp
    also have "\<dots> = 2 powi (fB + 1)"
      by (rule two_powi_mult) simp
    finally show ?thesis using lo assms(2) by linarith
  qed
  then have fle: "f \<le> fB"
  proof -
    assume less: "2 powi f < (2::real) powi (fB + 1)"
    have "\<not> fB + 1 \<le> f"
    proof
      assume "fB + 1 \<le> f"
      then have "(2::real) powi (fB + 1) \<le> 2 powi f"
        by (rule power_int_increasing) simp
      with less show False by simp
    qed
    then show ?thesis by simp
  qed
  have step: "valof (nearest_float n d) \<le> real B * 2 powi e" if "real ?N / real ?D \<le> real B" for B
  proof -
    have "real ?N \<le> real B * real ?D" using that Dpos by (simp add: field_simps)
    then have "?N \<le> B * ?D" by (metis of_nat_le_iff of_nat_mult)
    from round_half_even_le [OF Dpos this] show ?thesis
      by (simp add: nf valof_def mult_right_mono)
  qed
  show ?thesis
  proof (cases "f = fB")
    case True
    have "real ?N / real ?D \<le> real M * 2 powi (fB - 52) * 2 powi (- e)"
      unfolding ratio by (rule mult_right_mono [OF assms(2)]) simp
    also have "\<dots> = real M * (2 powi (fB - 52) * 2 powi (- e))" by simp
    also have "2 powi (fB - 52) * 2 powi (- e) = (2::real) powi 0"
      using True by (intro two_powi_mult) (simp add: e_def)
    finally have "real ?N / real ?D \<le> real M" by simp
    then show ?thesis using step [of M] True by (simp add: e_def)
  next
    case False
    then have "f + 1 \<le> fB" using fle by simp
    have "real ?N / real ?D \<le> 2 powi (f + 1) * 2 powi (- e)"
      unfolding ratio by (rule mult_right_mono [OF less_imp_le [OF hi]]) simp
    also have "\<dots> = 2 powi 53" by (rule two_powi_mult) (simp add: e_def)
    also have "\<dots> = 2 ^ 53" by simp
    also have "\<dots> = real (2 ^ 53)" by simp
    finally have "valof (nearest_float n d) \<le> real (2 ^ 53) * 2 powi e" by (rule step)
    also have "\<dots> = 2 powi 53 * 2 powi e" by simp
    also have "\<dots> = 2 powi (f + 1)" by (rule two_powi_mult) (simp add: e_def)
    also have "\<dots> \<le> 2 powi fB" using \<open>f + 1 \<le> fB\<close> by (rule power_int_increasing) simp
    also have "\<dots> = 2 powi 52 * 2 powi (fB - 52)" by (rule two_powi_mult [symmetric]) simp
    also have "\<dots> = 2 ^ 52 * 2 powi (fB - 52)" by simp
    also have "\<dots> \<le> real M * 2 powi (fB - 52)" using Mreal(2) by (simp add: mult_right_mono)
    finally show ?thesis .
  qed
qed


lemma pow2_scale: "real (m * pow2 k) / real (pow2 (- k)) = real m * 2 powi k"
proof -
  have "real (m * pow2 k) / real (pow2 (- k)) = real m * (real (pow2 k) / real (pow2 (- k)))"
    by simp
  then show ?thesis by (simp only: pow2_ratio)
qed

lemma py_int_le:
  assumes "valof x \<le> real B"
  shows "py_int x \<le> int B"
proof -
  let ?a = "mant x * pow2 (expo x)" and ?b = "pow2 (- expo x)"
  have "real ?a / real ?b = valof x"
    unfolding valof_def by (rule pow2_scale)
  then have "real ?a \<le> real B * real ?b"
    using assms by (simp add: field_simps)
  then have "?a \<le> B * ?b" by (metis of_nat_le_iff of_nat_mult)
  then have "?a div ?b \<le> B"
    by (metis div_le_mono nonzero_mult_div_cancel_right pow2_nz)
  then show ?thesis by (simp add: py_int_def)
qed

lemma fmul_le:
  assumes "valof x * valof y \<le> real M * 2 powi (fB - 52)" and "2 ^ 52 \<le> M" and "M < 2 ^ 53"
  shows "valof (fmul x y) \<le> real M * 2 powi (fB - 52)"
proof -
  let ?e = "expo x + expo y"
  have "real (mant x * mant y * pow2 ?e) / real (pow2 (- ?e))
          = real (mant x * mant y) * 2 powi ?e"
    by (rule pow2_scale)
  also have "\<dots> = valof x * valof y"
    by (simp add: valof_def power_int_add)
  finally have "real (mant x * mant y * pow2 ?e) / real (pow2 (- ?e)) \<le> real M * 2 powi (fB - 52)"
    using assms(1) by simp
  from nearest_float_le [OF _ this assms(2,3)] show ?thesis
    by (simp add: fmul_def Let_def)
qed

lemma float_of_int_100: "float_of_int 100 = \<lparr>mant = 100 * 2 ^ 46, expo = - 46\<rparr>"
  by (simp add: float_of_int_def nearest_float_def pow2_def round_half_even_def Let_def)

lemma valof_100: "valof (float_of_int 100) = 100"
  by (simp add: float_of_int_100 valof_def)

lemma percent_range:
  assumes "scanned \<le> total_size" and "0 < total_size"
  shows "\<exists>p. percent scanned total_size = Inr p \<and> 0 \<le> p \<and> p \<le> 100"
proof -
  let ?x = "nearest_float scanned total_size"
  have "real scanned / real total_size \<le> 1" using assms by simp
  then have "real scanned / real total_size \<le> real (2 ^ 52) * 2 powi (0 - 52)" by simp
  from nearest_float_le [OF assms(2) this] have x: "valof ?x \<le> 1" by simp
  have xpos: "0 \<le> valof ?x" by (simp add: valof_def)
  have "valof ?x * valof (float_of_int 100) \<le> 100"
    using x by (simp add: valof_100)
  then have "valof ?x * valof (float_of_int 100) \<le> real (100 * 2 ^ 46) * 2 powi (6 - 52)" by simp
  from fmul_le [OF this] have "valof (fmul ?x (float_of_int 100)) \<le> real 100" by simp
  then have "py_int (fmul ?x (float_of_int 100)) \<le> 100" using py_int_le by fastforce
  moreover have "0 \<le> py_int (fmul ?x (float_of_int 100))" by (simp add: py_int_def)
  ultimately show ?thesis using assms(2) by (simp add: percent_def truediv_def)
qed

lemma percent_complete:
  assumes "0 < n"
  shows "percent n n = Inr 100"
proof -
  have "nearest_float n n = \<lparr>mant = 2 ^ 52, expo = - 52\<rparr>"
    using assms by (simp add: nearest_float_def pow2_def round_half_even_def Let_def)
  then show ?thesis using assms
    by (simp add: percent_def truediv_def float_of_int_100 fmul_def nearest_float_def pow2_def round_half_even_def Let_def py_int_def)
qed

section \<open>The scan loop\<close>

declare scan_loop.simps [simp del]

lemma for_clients_eq:
  "for_clients cs m =
     (map (\<lambda>c. (ident c, m)) (takeWhile (\<lambda>c. \<not> is_closing c) cs),
      if list_all (\<lambda>c. \<not> is_closing c) cs then None else Some WebSocketClosedError)"
  by (induction cs) (simp_all add: write_message_def)

lemma for_clients_open:
  "list_all (\<lambda>c. \<not> is_closing c) cs \<Longrightarrow> for_clients cs m = (map (\<lambda>c. (ident c, m)) cs, None)"
  by (simp add: for_clients_eq list_all_iff takeWhile_eq_all_conv [THEN iffD2])

lemma percent_defined:
  "0 < t \<Longrightarrow> \<exists>p. percent a t = Inr p"
  by (simp add: percent_def truediv_def)

lemma loop_body_open:
  assumes "list_all (\<lambda>c. \<not> is_closing c) cs" and "percent (s + 512) (st_size f) = Inr p"
  shows "loop_body f cs drv s b =
     \<lparr>scanned_after = s + 512,
      bad_after = (if read_fails f s then b + 1 else b),
      published = [\<lparr>event = ''scan_progress'', drive = drv, progress = p,
                    bad_sectors = (if read_fails f s then b + 1 else b)\<rparr>],
      delivered = map (\<lambda>c. (ident c, \<lparr>event = ''scan_progress'', drive = drv, progress = p,
                    bad_sectors = (if read_fails f s then b + 1 else b)\<rparr>)) cs,
      raised = None\<rparr>"
  using assms
  by (simp add: loop_body_def Let_def sector_size_def send_progress_update_def for_clients_open)

lemma loop_body_counters:
  "scanned_after (loop_body f cs drv s b) = s + 512"
  "bad_after (loop_body f cs drv s b) = (if read_fails f s then b + 1 else b)"
  by (simp_all add: loop_body_def Let_def sector_size_def split: sum.splits prod.splits)

lemma loop_body_raised_open:
  assumes "list_all (\<lambda>c. \<not> is_closing c) cs" and "0 < st_size f"
  shows "raised (loop_body f cs drv s b) = None"
proof -
  from percent_defined [OF assms(2)] obtain p where "percent (s + 512) (st_size f) = Inr p" by blast
  from loop_body_open [OF assms(1) this] show ?thesis by simp
qed

lemma count_shift:
  "length (filter P [0..<Suc k]) = (if P 0 then 1 else 0) + length (filter (\<lambda>j. P (Suc j)) [0..<k])"
proof -
  have "[0..<Suc k] = 0 # map Suc [0..<k]"
    by (simp only: upt_conv_Cons [OF zero_less_Suc] map_Suc_upt)
  then show ?thesis by (simp add: filter_map comp_def)
qed

lemma scan_loop_ticks:
  assumes "list_all (\<lambda>c. \<not> is_closing c) cs"
  shows "scan_loop f cs drv s b =
     (map (\<lambda>k. loop_body f cs drv (s + k * 512)
                 (b + length (filter (\<lambda>j. read_fails f (s + j * 512)) [0..<k])))
        [0..<(st_size f + 511 - s) div 512],
      Success (b + length (filter (\<lambda>j. read_fails f (s + j * 512))
                             [0..<(st_size f + 511 - s) div 512])))"
  using assms
proof (induction f cs drv s b rule: scan_loop.induct)
  case (1 f cs drv s b)
  note open_cs = "1.prems"
  show ?case
  proof (cases "s < st_size f")
    case False
    then have "(st_size f + 511 - s) div 512 = 0" by simp
    then show ?thesis using False by (subst scan_loop.simps) simp
  next
    case True
    let ?t = "loop_body f cs drv s b"
    let ?b = "if read_fails f s then b + 1 else b"
    let ?n = "(st_size f + 511 - (s + 512)) div 512"
    have pos: "0 < st_size f" using True by simp
    have r: "raised ?t = None" by (rule loop_body_raised_open [OF open_cs pos])
    have ba: "bad_after ?t = ?b" by (rule loop_body_counters)
    have n: "(st_size f + 511 - s) div 512 = Suc ?n"
    proof -
      have "st_size f + 511 - s = (st_size f + 511 - (s + 512)) + 512" using True by simp
      then show ?thesis by simp
    qed
    have ih: "scan_loop f cs drv (s + sector_size) (bad_after ?t) =
       (map (\<lambda>k. loop_body f cs drv (s + 512 + k * 512)
                 (?b + length (filter (\<lambda>j. read_fails f (s + 512 + j * 512)) [0..<k])))
          [0..<?n],
        Success (?b + length (filter (\<lambda>j. read_fails f (s + 512 + j * 512)) [0..<?n])))"
      using "1.IH" [OF True refl r open_cs] by (simp add: ba sector_size_def)
    have upt: "[0..<Suc ?n] = 0 # map Suc [0..<?n]"
      by (simp only: upt_conv_Cons [OF zero_less_Suc] map_Suc_upt)
    have shift: "b + length (filter (\<lambda>j. read_fails f (s + j * 512)) [0..<Suc k])
        = ?b + length (filter (\<lambda>j. read_fails f (s + 512 + j * 512)) [0..<k])" for k
      by (subst count_shift) (simp add: add.assoc)
    have "scan_loop f cs drv s b =
       (?t # map (\<lambda>k. loop_body f cs drv (s + 512 + k * 512)
                 (?b + length (filter (\<lambda>j. read_fails f (s + 512 + j * 512)) [0..<k])))
          [0..<?n],
        Success (?b + length (filter (\<lambda>j. read_fails f (s + 512 + j * 512)) [0..<?n])))"
      using True r ih by (subst scan_loop.simps) (simp add: Let_def)
    also have "\<dots> = (map (\<lambda>k. loop_body f cs drv (s + k * 512)
                 (b + length (filter (\<lambda>j. read_fails f (s + j * 512)) [0..<k])))
          [0..<Suc ?n],
        Success (b + length (filter (\<lambda>j. read_fails f (s + j * 512)) [0..<Suc ?n])))"
      unfolding shift unfolding upt by (simp add: comp_def shift add.assoc del: upt_Suc)
    finally show ?thesis unfolding n .
  qed
qed


lemma scan_loop_length:
  assumes "list_all (\<lambda>c. \<not> is_closing c) cs"
  shows "length (fst (scan_loop f cs drv 0 0)) = (st_size f + 511) div 512"
    and "snd (scan_loop f cs drv 0 0)
           = Success (length (filter (\<lambda>j. read_fails f (j * 512)) [0..<(st_size f + 511) div 512]))"
  by (simp_all add: scan_loop_ticks [OF assms])

lemma scan_loop_nth:
  assumes "list_all (\<lambda>c. \<not> is_closing c) cs" and "k < (st_size f + 511) div 512"
    and "percent (Suc k * 512) (st_size f) = Inr p"
  shows "fst (scan_loop f cs drv 0 0) ! k =
     \<lparr>scanned_after = Suc k * 512,
      bad_after = length (filter (\<lambda>j. read_fails f (j * 512)) [0..<Suc k]),
      published = [\<lparr>event = ''scan_progress'', drive = drv, progress = p,
                    bad_sectors = length (filter (\<lambda>j. read_fails f (j * 512)) [0..<Suc k])\<rparr>],
      delivered = map (\<lambda>c. (ident c, \<lparr>event = ''scan_progress'', drive = drv, progress = p,
                    bad_sectors = length (filter (\<lambda>j. read_fails f (j * 512)) [0..<Suc k])\<rparr>)) cs,
      raised = None\<rparr>"
proof -
  have p: "percent (k * 512 + 512) (st_size f) = Inr p" using assms(3) by (simp add: add.commute)
  have "fst (scan_loop f cs drv 0 0) ! k =
      loop_body f cs drv (k * 512) (length (filter (\<lambda>j. read_fails f (j * 512)) [0..<k]))"
    using assms(2) by (simp add: scan_loop_ticks [OF assms(1)])
  then show ?thesis
    by (simp add: loop_body_open [OF assms(1) p])
qed

lemma positive_size:
  "k < (st_size f + 511) div 512 \<Longrightarrow> 0 < st_size f"
  by (cases "st_size f = 0") simp_all

lemmas float_eval = percent_def truediv_def nearest_float_def fmul_def py_int_def
  float_of_int_def pow2_def round_half_even_def Let_def

lemma scan_aligned_last:
  assumes "list_all (\<lambda>c. \<not> is_closing c) cs" and "0 < st_size f" and "st_size f mod 512 = 0"
  shows "scanned_after (last (fst (scan_loop f cs drv 0 0))) = st_size f"
    and "map progress (published (last (fst (scan_loop f cs drv 0 0)))) = [100]"
proof -
  let ?n = "(st_size f + 511) div 512"
  let ?ts = "fst (scan_loop f cs drv 0 0)"
  from assms(3) obtain m where m: "st_size f = 512 * m" by (auto simp: mod_eq_0_iff_dvd)
  with assms(2) have mpos: "0 < m" by simp
  have n: "?n = m" unfolding m by simp
  have len: "length ?ts = m" using scan_loop_length(1) [OF assms(1), of f drv] n by simp
  then have ne: "?ts \<noteq> []" using mpos by auto
  have last: "last ?ts = ?ts ! (m - 1)" using len by (simp add: last_conv_nth [OF ne])
  have k: "m - 1 < ?n" using mpos n by simp
  have "percent (Suc (m - 1) * 512) (st_size f) = Inr 100"
    using mpos percent_complete [of "st_size f"] assms(2) by (simp add: m mult.commute)
  from scan_loop_nth [OF assms(1) k this, of drv]
  show "scanned_after (last ?ts) = st_size f"
    and "map progress (published (last ?ts)) = [100]"
    unfolding last using mpos by (simp_all add: m)
qed

text \<open>
  C2. A failed read never ends the scan. Every pass of the loop advances \<open>scanned\<close> by
  one sector whatever the read did, a failed read adds one to \<open>bad_sectors\<close>, and the
  pass raises nothing as long as every client can be written to. The scan of a file
  that can be opened then returns success with the number of sectors whose read
  failed, after one pass per sector; when the size is a positive multiple of the
  sector size the last pass leaves \<open>scanned\<close> equal to the size and reports 100.
  The scenario of the specification (ten sectors, the reads of sectors 4 and 7 fail) is
  the instance evaluated after the theorem: success, 2 bad sectors, 10 sectors scanned,
  last progress 100.
\<close>

theorem read_failure_never_aborts:
  assumes "fs (''/dev/'' @ drv) = Some f" and "openable f"
    and "list_all (\<lambda>c. \<not> is_closing c) cs"
  shows "scanned_after (loop_body f cs drv s b) = s + sector_size
       \<and> bad_after (loop_body f cs drv s b) = (if read_fails f s then b + 1 else b)
       \<and> (0 < st_size f \<longrightarrow> raised (loop_body f cs drv s b) = None)
       \<and> (\<exists>ts. scan_drive fs cs drv =
                 Inr (ts, Success (length (filter (\<lambda>j. read_fails f (j * sector_size))
                                            [0..<(st_size f + 511) div 512])))
              \<and> length ts = (st_size f + 511) div 512
              \<and> map scanned_after ts
                   = map (\<lambda>k. Suc k * sector_size) [0..<(st_size f + 511) div 512]
              \<and> (0 < st_size f \<and> st_size f mod sector_size = 0 \<longrightarrow>
                   scanned_after (last ts) = st_size f
                   \<and> map progress (published (last ts)) = [100]))"
proof -
  let ?n = "(st_size f + 511) div 512"
  let ?ts = "fst (scan_loop f cs drv 0 0)"
  have run: "scan_drive fs cs drv = Inr (scan_loop f cs drv 0 0)"
    using assms(1,2) by (simp add: scan_drive_def)
  have res: "scan_drive fs cs drv =
      Inr (?ts, Success (length (filter (\<lambda>j. read_fails f (j * sector_size)) [0..<?n])))"
    using scan_loop_length(2) [OF assms(3), of f drv]
    by (simp add: run sector_size_def prod_eq_iff)
  have len: "length ?ts = ?n" by (rule scan_loop_length(1) [OF assms(3)])
  have sc: "map scanned_after ?ts = map (\<lambda>k. Suc k * sector_size) [0..<?n]"
    by (simp add: scan_loop_ticks [OF assms(3)] loop_body_counters sector_size_def comp_def)
  have fin: "0 < st_size f \<and> st_size f mod sector_size = 0 \<longrightarrow>
      scanned_after (last ?ts) = st_size f \<and> map progress (published (last ?ts)) = [100]"
    using scan_aligned_last [OF assms(3), of f drv] by (simp add: sector_size_def)
  have body: "0 < st_size f \<longrightarrow> raised (loop_body f cs drv s b) = None"
    using loop_body_raised_open [OF assms(3)] by simp
  show ?thesis
  proof (intro conjI)
    show "scanned_after (loop_body f cs drv s b) = s + sector_size"
      by (simp add: loop_body_counters sector_size_def)
    show "bad_after (loop_body f cs drv s b) = (if read_fails f s then b + 1 else b)"
      by (simp add: loop_body_counters)
    show "0 < st_size f \<longrightarrow> raised (loop_body f cs drv s b) = None"
      by (rule body)
    show "\<exists>ts. scan_drive fs cs drv =
                 Inr (ts, Success (length (filter (\<lambda>j. read_fails f (j * sector_size)) [0..<?n])))
              \<and> length ts = ?n
              \<and> map scanned_after ts = map (\<lambda>k. Suc k * sector_size) [0..<?n]
              \<and> (0 < st_size f \<and> st_size f mod sector_size = 0 \<longrightarrow>
                   scanned_after (last ts) = st_size f
                   \<and> map progress (published (last ts)) = [100])"
      by (rule exI [of _ ?ts], intro conjI, rule res, rule len, rule sc, rule fin)
  qed
qed

theorem read_failure_never_aborts_witness:
  "\<exists>ts. scan_drive (dev_sda (disk 5120 [4 * 512, 7 * 512])) [listener 1] ''sda''
           = Inr (ts, Success 2)
      \<and> length ts = 10
      \<and> scanned_after (last ts) = 10 * 512
      \<and> map progress (published (last ts)) = [100]"
proof -
  let ?f = "disk 5120 [4 * 512, 7 * 512]"
  have h1: "dev_sda ?f (''/dev/'' @ ''sda'') = Some ?f" by (simp add: dev_sda_def)
  have h2: "openable ?f" by (simp add: disk_def)
  have h3: "list_all (\<lambda>c. \<not> is_closing c) [listener 1]" by (simp add: listener_def)
  have sz: "st_size ?f = 5120" by (simp add: disk_def)
  have cnt: "length (filter (\<lambda>j. read_fails ?f (j * sector_size)) [0..<(st_size ?f + 511) div 512]) = 2"
    by (simp add: disk_def sector_size_def upt_rec [of _ "numeral n" for n] upt_rec [of _ "Suc n" for n])
  from read_failure_never_aborts
         [where fs = "dev_sda ?f" and drv = "''sda''" and f = ?f and cs = "[listener 1]"
            and s = 0 and b = 0, OF h1 h2 h3]
  show ?thesis unfolding cnt by (clarsimp simp: disk_def sector_size_def)
qed


text \<open>
  The counters along a scan: \<open>bad_sectors\<close> never exceeds the number of sectors scanned
  and never decreases; \<open>scanned\<close> stays below the size plus one sector, and within the
  size when the size is a multiple of the sector size.
\<close>

lemma count_mono:
  assumes "a \<le> b"
  shows "length (filter P [0..<a]) \<le> length (filter P [0..<b])"
proof -
  from assms obtain c where "b = a + c" by (auto simp: le_iff_add)
  then show ?thesis by (simp add: upt_add_eq_append [of 0])
qed

lemma scan_counters:
  assumes "list_all (\<lambda>c. \<not> is_closing c) cs"
    and "k < length (fst (scan_loop f cs drv 0 0))"
  shows "bad_after (fst (scan_loop f cs drv 0 0) ! k) * sector_size
           \<le> scanned_after (fst (scan_loop f cs drv 0 0) ! k)"
    and "scanned_after (fst (scan_loop f cs drv 0 0) ! k) < st_size f + sector_size"
    and "st_size f mod sector_size = 0
           \<Longrightarrow> scanned_after (fst (scan_loop f cs drv 0 0) ! k) \<le> st_size f"
    and "j \<le> k \<Longrightarrow> bad_after (fst (scan_loop f cs drv 0 0) ! j)
                     \<le> bad_after (fst (scan_loop f cs drv 0 0) ! k)"
proof -
  let ?ts = "fst (scan_loop f cs drv 0 0)"
  let ?P = "\<lambda>j. read_fails f (j * 512)"
  have k: "k < (st_size f + 511) div 512"
    using assms(2) by (simp add: scan_loop_length(1) [OF assms(1)])
  have nth: "scanned_after (?ts ! i) = Suc i * 512 \<and> bad_after (?ts ! i) = length (filter ?P [0..<Suc i])"
    if "i < (st_size f + 511) div 512" for i
  proof -
    from percent_defined [OF positive_size [OF that]] obtain p
      where "percent (Suc i * 512) (st_size f) = Inr p" by blast
    from scan_loop_nth [OF assms(1) that this, of drv] show ?thesis by simp
  qed
  have "length (filter ?P [0..<Suc k]) \<le> length [0..<Suc k]" by (rule length_filter_le)
  then show "bad_after (?ts ! k) * sector_size \<le> scanned_after (?ts ! k)"
    using nth [OF k] by (simp add: sector_size_def del: upt_Suc)
  have lt: "k * 512 < st_size f"
  proof -
    have "Suc k \<le> (st_size f + 511) div 512" using k by simp
    then have "Suc k * 512 \<le> st_size f + 511"
      by (simp only: less_eq_div_iff_mult_less_eq [of 512, simplified])
    then show ?thesis by simp
  qed
  show "scanned_after (?ts ! k) < st_size f + sector_size"
    using nth [OF k] lt by (simp add: sector_size_def)
  show "scanned_after (?ts ! k) \<le> st_size f" if "st_size f mod sector_size = 0"
  proof -
    from that obtain m where m: "st_size f = 512 * m"
      by (auto simp: mod_eq_0_iff_dvd sector_size_def)
    have "k < m" using lt unfolding m by simp
    then show ?thesis using nth [OF k] unfolding m by simp
  qed
  show "bad_after (?ts ! j) \<le> bad_after (?ts ! k)" if "j \<le> k"
  proof -
    have j: "j < (st_size f + 511) div 512" using that k by simp
    have "length (filter ?P [0..<Suc j]) \<le> length (filter ?P [0..<Suc k])"
      by (rule count_mono) (use that in simp)
    then show ?thesis using nth [OF j] nth [OF k] by (simp del: upt_Suc)
  qed
qed

text \<open>
  C5. The bound of \<open>scanned\<close> by the size fails when the last sector is a partial
  one. On a file of 1000 bytes the loop makes two passes: the second one leaves
  \<open>scanned = 1024\<close>, more than the size of the file, and reports a progress of 102.
\<close>

theorem scan_overshoots_partial_sector:
  "scan_loop (disk 1000 []) [] ''sda'' 0 0 =
     ([\<lparr>scanned_after = 512, bad_after = 0,
        published = [\<lparr>event = ''scan_progress'', drive = ''sda'', progress = 51, bad_sectors = 0\<rparr>],
        delivered = [], raised = None\<rparr>,
       \<lparr>scanned_after = 1024, bad_after = 0,
        published = [\<lparr>event = ''scan_progress'', drive = ''sda'', progress = 102, bad_sectors = 0\<rparr>],
        delivered = [], raised = None\<rparr>],
      Success 0)
   \<and> st_size (disk 1000 []) < 1024"
proof -
  have p1: "percent (0 + 512) (st_size (disk 1000 [])) = Inr 51"
    by (simp add: disk_def float_eval)
  have p2: "percent (512 + 512) (st_size (disk 1000 [])) = Inr 102"
    by (simp add: disk_def float_eval)
  have o: "list_all (\<lambda>c. \<not> is_closing c) []" by simp
  have n: "(st_size (disk 1000 []) + 511 - 0) div 512 = Suc (Suc 0)" by (simp add: disk_def)
  show ?thesis
    unfolding scan_loop_ticks [OF o] n
    using loop_body_open [OF o p1, of "''sda''" 0] loop_body_open [OF o p2, of "''sda''" 0]
    by (simp add: disk_def)
qed

text \<open>
  C6, as stated, fails: on a file of 50 sectors the pass that brings \<open>scanned\<close> to 29
  sectors reports 57, while the floor of \<open>29 * 100 / 50\<close> is 58. The quotient
  \<open>29 / 50\<close> is rounded to a binary64 number below 0.58 and the product with 100 stays
  below 58.
\<close>

theorem progress_not_floor_division:
  "scanned_after (fst (scan_loop (disk (50 * 512) []) [] ''sda'' 0 0) ! 28) = 29 * 512
   \<and> map progress (published (fst (scan_loop (disk (50 * 512) []) [] ''sda'' 0 0) ! 28)) = [57]
   \<and> (29 * 100) div 50 = (58 :: int)"
proof -
  have p: "percent (Suc 28 * 512) (st_size (disk (50 * 512) [])) = Inr 57"
    by (simp add: disk_def float_eval)
  have o: "list_all (\<lambda>c. \<not> is_closing c) []" by simp
  have k: "28 < (st_size (disk (50 * 512) []) + 511) div 512" by (simp add: disk_def)
  show ?thesis
    using scan_loop_nth [OF o k p, of "''sda''"] by simp
qed


text \<open>
  C6, amended. When the size is a positive multiple of the sector size and every client
  can be written to, the progress of every published message is the value of
  \<^verbatim>\<open>int((scanned / total_size) * 100)\<close> in binary64 arithmetic, it lies between 0
  and 100, and the last message reports exactly 100.
\<close>

theorem progress_in_range:
  assumes "list_all (\<lambda>c. \<not> is_closing c) cs"
    and "0 < st_size f" and "st_size f mod sector_size = 0"
  shows "list_all (\<lambda>t. \<exists>p. percent (scanned_after t) (st_size f) = Inr p
                        \<and> map progress (published t) = [p] \<and> 0 \<le> p \<and> p \<le> 100)
           (fst (scan_loop f cs drv 0 0))
       \<and> map progress (published (last (fst (scan_loop f cs drv 0 0)))) = [100]"
proof -
  let ?n = "(st_size f + 511) div 512"
  let ?ts = "fst (scan_loop f cs drv 0 0)"
  from assms(3) obtain m where m: "st_size f = 512 * m"
    by (auto simp: mod_eq_0_iff_dvd sector_size_def)
  have n: "?n = m" unfolding m by simp
  have len: "length ?ts = ?n" by (rule scan_loop_length(1) [OF assms(1)])
  have each: "\<exists>p. percent (scanned_after (?ts ! k)) (st_size f) = Inr p
                \<and> map progress (published (?ts ! k)) = [p] \<and> 0 \<le> p \<and> p \<le> 100"
    if "k < length ?ts" for k
  proof -
    have k: "k < ?n" using that len by simp
    then have "Suc k * 512 \<le> st_size f" unfolding n m by simp
    from percent_range [OF this assms(2)] obtain p
      where p: "percent (Suc k * 512) (st_size f) = Inr p" "0 \<le> p" "p \<le> 100" by blast
    from scan_loop_nth [OF assms(1) k p(1), of drv] p show ?thesis by simp
  qed
  have "list_all (\<lambda>t. \<exists>p. percent (scanned_after t) (st_size f) = Inr p
                        \<and> map progress (published t) = [p] \<and> 0 \<le> p \<and> p \<le> 100) ?ts"
    unfolding list_all_length using each by blast
  moreover have "map progress (published (last ?ts)) = [100]"
    using scan_aligned_last(2) [OF assms(1,2)] assms(3) by (simp add: sector_size_def)
  ultimately show ?thesis by (rule conjI)
qed

theorem progress_in_range_witness:
  "list_all (\<lambda>t. \<exists>p. percent (scanned_after t) 5120 = Inr p
                        \<and> map progress (published t) = [p] \<and> 0 \<le> p \<and> p \<le> 100)
           (fst (scan_loop (disk 5120 []) [listener 1] ''sda'' 0 0))
   \<and> map progress (published (last (fst (scan_loop (disk 5120 []) [listener 1] ''sda'' 0 0)))) = [100]"
proof -
  have h1: "list_all (\<lambda>c. \<not> is_closing c) [listener 1]" by (simp add: listener_def)
  have h2: "0 < st_size (disk 5120 [])" by (simp add: disk_def)
  have h3: "st_size (disk 5120 []) mod sector_size = 0" by (simp add: disk_def sector_size_def)
  have sz: "st_size (disk 5120 []) = 5120" by (simp add: disk_def)
  from progress_in_range [OF h1 h2 h3, of "''sda''"] show ?thesis unfolding sz .
qed

lemma one_message_each:
  assumes "list_all (\<lambda>c. \<not> is_closing c) cs"
  shows "map (\<lambda>t. length (published t)) (fst (scan_loop f cs drv 0 0))
           = replicate ((st_size f + 511) div 512) 1"
proof (rule nth_equalityI)
  show "length (map (\<lambda>t. length (published t)) (fst (scan_loop f cs drv 0 0)))
          = length (replicate ((st_size f + 511) div 512) (1::nat))"
    by (simp add: scan_loop_length(1) [OF assms])
next
  fix k
  assume "k < length (map (\<lambda>t. length (published t)) (fst (scan_loop f cs drv 0 0)))"
  then have k: "k < (st_size f + 511) div 512" by (simp add: scan_loop_length(1) [OF assms])
  from percent_defined [OF positive_size [OF k]] obtain p
    where p: "percent (Suc k * 512) (st_size f) = Inr p" by blast
  show "map (\<lambda>t. length (published t)) (fst (scan_loop f cs drv 0 0)) ! k
          = replicate ((st_size f + 511) div 512) 1 ! k"
    using k scan_loop_nth [OF assms k p, of drv]
    by (simp add: scan_loop_length(1) [OF assms])
qed

lemma published_count:
  assumes "list_all (\<lambda>c. \<not> is_closing c) cs"
  shows "length (concat (map published (fst (scan_loop f cs drv 0 0))))
           = (st_size f + 511) div 512"
proof -
  have "length (concat (map published (fst (scan_loop f cs drv 0 0))))
          = sum_list (map (\<lambda>t. length (published t)) (fst (scan_loop f cs drv 0 0)))"
    by (simp add: length_concat comp_def)
  then show ?thesis
    by (simp add: one_message_each [OF assms] sum_list_replicate)
qed

section \<open>Events and failures of the fan-out\<close>

lemma loop_body_events:
  "list_all (\<lambda>m. event m = ''scan_progress'') (published (loop_body f cs drv s b))
   \<and> list_all (\<lambda>d. event (snd d) = ''scan_progress'') (delivered (loop_body f cs drv s b))"
  by (simp add: loop_body_def Let_def send_progress_update_def for_clients_eq list_all_iff
        split: sum.splits)

lemma scan_loop_events:
  "list_all (\<lambda>t. list_all (\<lambda>m. event m = ''scan_progress'') (published t)
                \<and> list_all (\<lambda>d. event (snd d) = ''scan_progress'') (delivered t))
     (fst (scan_loop f cs drv s b))"
proof (induction f cs drv s b rule: scan_loop.induct)
  case (1 f cs drv s b)
  show ?case
  proof (cases "s < st_size f")
    case False
    then show ?thesis by (subst scan_loop.simps) simp
  next
    case True
    let ?t = "loop_body f cs drv s b"
    show ?thesis
    proof (cases "raised ?t")
      case None
      from "1.IH" [OF True refl None] True None loop_body_events [of f cs drv s b]
      show ?thesis
        by (subst scan_loop.simps) (auto simp: Let_def split: prod.splits)
    next
      case (Some e)
      with True loop_body_events [of f cs drv s b] show ?thesis
        by (subst scan_loop.simps) (simp add: Let_def)
    qed
  qed
qed

text \<open>
  Every message a scan publishes, and every message it delivers to a client, is a
  \<^verbatim>\<open>scan_progress\<close> message, however the scan ends.
\<close>

lemma only_progress_events:
  "scan_drive fs cs drv = Inr (ts, r) \<longrightarrow>
     list_all (\<lambda>t. list_all (\<lambda>m. event m = ''scan_progress'') (published t)
                  \<and> list_all (\<lambda>d. event (snd d) = ''scan_progress'') (delivered t)) ts
     \<and> filter (\<lambda>m. event m = ''scan_complete'') (concat (map published ts)) = []
     \<and> filter (\<lambda>d. event (snd d) = ''scan_complete'') (concat (map delivered ts)) = []"
proof
  assume run: "scan_drive fs cs drv = Inr (ts, r)"
  have all: "list_all (\<lambda>t. list_all (\<lambda>m. event m = ''scan_progress'') (published t)
                  \<and> list_all (\<lambda>d. event (snd d) = ''scan_progress'') (delivered t)) ts"
  proof (cases "fs (''/dev/'' @ drv)")
    case None
    with run show ?thesis by (simp add: scan_drive_def)
  next
    case (Some f)
    show ?thesis
    proof (cases "openable f")
      case True
      with Some run have "ts = fst (scan_loop f cs drv 0 0)"
        by (simp add: scan_drive_def prod_eq_iff)
      then show ?thesis by (simp add: scan_loop_events)
    next
      case False
      with Some run show ?thesis by (simp add: scan_drive_def)
    qed
  qed
  have "filter (\<lambda>m. event m = ''scan_complete'') (concat (map published ts)) = []"
    using all by (auto simp: filter_empty_conv list_all_iff)
  moreover have "filter (\<lambda>d. event (snd d) = ''scan_complete'') (concat (map delivered ts)) = []"
    using all by (auto simp: filter_empty_conv list_all_iff)
  ultimately show "list_all (\<lambda>t. list_all (\<lambda>m. event m = ''scan_progress'') (published t)
                  \<and> list_all (\<lambda>d. event (snd d) = ''scan_progress'') (delivered t)) ts
     \<and> filter (\<lambda>m. event m = ''scan_complete'') (concat (map published ts)) = []
     \<and> filter (\<lambda>d. event (snd d) = ''scan_complete'') (concat (map delivered ts)) = []"
    using all by simp
qed

lemma one_sector_scan:
  "scan_drive (dev_sda (disk 512 [])) [listener 1] ''sda'' =
     Inr ([\<lparr>scanned_after = 512, bad_after = 0,
            published = [\<lparr>event = ''scan_progress'', drive = ''sda'', progress = 100,
                          bad_sectors = 0\<rparr>],
            delivered = [(1, \<lparr>event = ''scan_progress'', drive = ''sda'', progress = 100,
                              bad_sectors = 0\<rparr>)],
            raised = None\<rparr>],
          Success 0)"
proof -
  have p: "percent (0 + 512) (st_size (disk 512 [])) = Inr 100"
    by (simp add: disk_def percent_complete)
  have o: "list_all (\<lambda>c. \<not> is_closing c) [listener 1]" by (simp add: listener_def)
  have n: "(st_size (disk 512 []) + 511 - 0) div 512 = Suc 0" by (simp add: disk_def)
  have "scan_loop (disk 512 []) [listener 1] ''sda'' 0 0 =
     ([\<lparr>scanned_after = 512, bad_after = 0,
            published = [\<lparr>event = ''scan_progress'', drive = ''sda'', progress = 100,
                          bad_sectors = 0\<rparr>],
            delivered = [(1, \<lparr>event = ''scan_progress'', drive = ''sda'', progress = 100,
                              bad_sectors = 0\<rparr>)],
            raised = None\<rparr>],
          Success 0)"
    unfolding scan_loop_ticks [OF o] n
    using loop_body_open [OF o p, of "''sda''" 0]
    by (simp add: disk_def listener_def)
  then show ?thesis by (simp add: scan_drive_def dev_sda_def disk_def)
qed

lemma only_progress_events_instance:
  "\<exists>ts. scan_drive (dev_sda (disk 512 [])) [listener 1] ''sda'' = Inr (ts, Success 0)
      \<and> list_all (\<lambda>t. list_all (\<lambda>m. event m = ''scan_progress'') (published t)
                  \<and> list_all (\<lambda>d. event (snd d) = ''scan_progress'') (delivered t)) ts
      \<and> filter (\<lambda>m. event m = ''scan_complete'') (concat (map published ts)) = []
      \<and> filter (\<lambda>d. event (snd d) = ''scan_complete'') (concat (map delivered ts)) = []"
proof -
  from one_sector_scan obtain ts
    where run: "scan_drive (dev_sda (disk 512 [])) [listener 1] ''sda'' = Inr (ts, Success 0)"
    by blast
  from only_progress_events [of "dev_sda (disk 512 [])" "[listener 1]" "''sda''" ts "Success 0"] run
  show ?thesis by blast
qed

text \<open>
  C3. No completion event is published. The scan of a one-sector file with one client
  connected ends with success after delivering a single message, a
  \<^verbatim>\<open>scan_progress\<close>: the number of \<^verbatim>\<open>scan_complete\<close> messages delivered is zero, and
  the last message the client has seen is that \<^verbatim>\<open>scan_progress\<close>.
\<close>

theorem completed_without_completion_event:
  "(\<exists>ts. scan_drive (dev_sda (disk 512 [])) [listener 1] ''sda'' = Inr (ts, Success 0)
        \<and> length (concat (map delivered ts)) = 1
        \<and> length (filter (\<lambda>d. event (snd d) = ''scan_complete'') (concat (map delivered ts))) = 0
        \<and> event (snd (last (concat (map delivered ts)))) = ''scan_progress'')"
  using one_sector_scan by simp


lemma loop_body_raised:
  assumes "0 < st_size f"
  shows "raised (loop_body f cs drv s b)
           = (if list_all (\<lambda>c. \<not> is_closing c) cs then None else Some WebSocketClosedError)"
proof -
  from percent_defined [OF assms] obtain p where "percent (s + sector_size) (st_size f) = Inr p"
    by blast
  then show ?thesis
    by (simp add: loop_body_def Let_def send_progress_update_def for_clients_eq)
qed

lemma scan_loop_aborts:
  assumes "s < st_size f" and "\<not> list_all (\<lambda>c. \<not> is_closing c) cs"
  shows "scan_loop f cs drv s b = ([loop_body f cs drv s b], Failure WebSocketClosedError)"
proof -
  have "0 < st_size f" using assms(1) by simp
  from loop_body_raised [OF this, of cs drv s b] assms show ?thesis
    by (subst scan_loop.simps) (simp add: Let_def)
qed

lemma loop_body_one_message:
  assumes "0 < st_size f"
  shows "length (published (loop_body f cs drv s b)) = 1"
proof -
  from percent_defined [OF assms] obtain p where "percent (s + sector_size) (st_size f) = Inr p"
    by blast
  then show ?thesis
    by (simp add: loop_body_def Let_def split: prod.splits)
qed

lemma every_pass_publishes:
  "list_all (\<lambda>t. length (published t) = 1) (fst (scan_loop f cs drv s b))"
proof (induction f cs drv s b rule: scan_loop.induct)
  case (1 f cs drv s b)
  show ?case
  proof (cases "s < st_size f")
    case False
    then show ?thesis by (subst scan_loop.simps) simp
  next
    case True
    let ?t = "loop_body f cs drv s b"
    have one: "length (published ?t) = 1"
      by (rule loop_body_one_message) (use True in simp)
    show ?thesis
    proof (cases "raised ?t")
      case None
      from "1.IH" [OF True refl None] True None one show ?thesis
        by (subst scan_loop.simps) (auto simp: Let_def split: prod.splits)
    next
      case (Some e)
      with True one show ?thesis
        by (subst scan_loop.simps) (simp add: Let_def)
    qed
  qed
qed

text \<open>
  C7, amended. The loop publishes exactly one message in every pass it makes, that is
  one per scanned sector, whatever the size of the file. When every connected client can
  be written to, it makes one pass for each sector of the file, and so publishes as
  many messages as the file has sectors; when some client cannot be written to, the
  scan of a non-empty file ends in its first pass, with one message published.
\<close>

theorem one_event_per_unit:
  "list_all (\<lambda>t. length (published t) = 1) (fst (scan_loop f cs drv s b))
   \<and> (list_all (\<lambda>c. \<not> is_closing c) cs \<longrightarrow>
        map (\<lambda>t. length (published t)) (fst (scan_loop f cs drv 0 0))
          = replicate ((st_size f + sector_size - 1) div sector_size) 1
        \<and> length (concat (map published (fst (scan_loop f cs drv 0 0))))
          = (st_size f + sector_size - 1) div sector_size)
   \<and> (\<not> list_all (\<lambda>c. \<not> is_closing c) cs \<and> 0 < st_size f \<longrightarrow>
        length (concat (map published (fst (scan_loop f cs drv 0 0)))) = 1)"
proof (intro conjI impI)
  show "list_all (\<lambda>t. length (published t) = 1) (fst (scan_loop f cs drv s b))"
    by (rule every_pass_publishes)
next
  assume o: "list_all (\<lambda>c. \<not> is_closing c) cs"
  show "map (\<lambda>t. length (published t)) (fst (scan_loop f cs drv 0 0))
          = replicate ((st_size f + sector_size - 1) div sector_size) 1"
    by (simp add: one_message_each [OF o] sector_size_def)
  show "length (concat (map published (fst (scan_loop f cs drv 0 0))))
          = (st_size f + sector_size - 1) div sector_size"
    by (simp add: published_count [OF o] sector_size_def)
next
  assume a: "\<not> list_all (\<lambda>c. \<not> is_closing c) cs \<and> 0 < st_size f"
  then have "scan_loop f cs drv 0 0 = ([loop_body f cs drv 0 0], Failure WebSocketClosedError)"
    by (intro scan_loop_aborts) simp_all
  then show "length (concat (map published (fst (scan_loop f cs drv 0 0)))) = 1"
    using a by (simp add: loop_body_one_message)
qed

theorem one_event_per_unit_witness:
  "map (\<lambda>t. length (published t)) (fst (scan_loop (disk 5120 []) [listener 1] ''sda'' 0 0))
      = replicate 10 1
   \<and> length (concat (map published (fst (scan_loop (disk 5120 []) [listener 1] ''sda'' 0 0)))) = 10
   \<and> length (concat (map published (fst (scan_loop (disk 5120 []) [gone 1] ''sda'' 0 0)))) = 1"
proof -
  have h: "list_all (\<lambda>c. \<not> is_closing c) [listener 1]" by (simp add: listener_def)
  have g: "\<not> list_all (\<lambda>c. \<not> is_closing c) [gone 1] \<and> 0 < st_size (disk 5120 [])"
    by (simp add: gone_def disk_def)
  from one_event_per_unit [of "disk 5120 []" "[listener 1]" "''sda''" 0 0] h
    one_event_per_unit [of "disk 5120 []" "[gone 1]" "''sda''" 0 0] g
  show ?thesis by (simp add: disk_def sector_size_def)
qed

text \<open>
  C7, as stated, fails: the scan of a file of \<open>10\<^sup>1\<^sup>2\<close> bytes publishes 1953125000
  messages, one for each of its sectors.
\<close>

theorem event_storm_on_large_device:
  "length (concat (map published (fst (scan_loop (disk 1000000000000 []) [] ''sda'' 0 0))))
     = 1953125000"
proof -
  have o: "list_all (\<lambda>c. \<not> is_closing c) []" by simp
  have "(st_size (disk 1000000000000 []) + 511) div 512 = 1953125000" by (simp add: disk_def)
  then show ?thesis by (simp only: published_count [OF o])
qed

text \<open>
  C8, amended. \<^verbatim>\<open>send_progress_update\<close> writes to the clients in turn, with no
  handler around \<^verbatim>\<open>write_message\<close>: the clients before the first one whose
  connection is closing receive the message, that write raises, and the clients after
  it receive nothing. The exception reaches the scan loop, whose outer
  \<^verbatim>\<open>except Exception\<close> ends the scan with a failure. With no client connected the
  call does nothing and raises nothing.
\<close>

theorem fan_out_stops_at_first_failure:
  "send_progress_update cs drv p b =
      (map (\<lambda>c. (ident c, \<lparr>event = ''scan_progress'', drive = drv, progress = p,
                              bad_sectors = b\<rparr>))
         (takeWhile (\<lambda>c. \<not> is_closing c) cs),
       if list_all (\<lambda>c. \<not> is_closing c) cs then None else Some WebSocketClosedError)
   \<and> send_progress_update [] drv p b = ([], None)
   \<and> (s < st_size f \<and> \<not> list_all (\<lambda>c. \<not> is_closing c) cs \<longrightarrow>
        scan_loop f cs drv s b = ([loop_body f cs drv s b], Failure WebSocketClosedError))"
  by (simp add: send_progress_update_def for_clients_eq scan_loop_aborts)

theorem fan_out_stops_at_first_failure_witness:
  "send_progress_update [listener 1, gone 2, listener 3] ''sda'' 50 0 =
      ([(1, \<lparr>event = ''scan_progress'', drive = ''sda'', progress = 50, bad_sectors = 0\<rparr>)],
       Some WebSocketClosedError)
   \<and> send_progress_update [] ''sda'' 50 0 = ([], None)
   \<and> scan_loop (disk 1024 []) [listener 1, gone 2, listener 3] ''sda'' 0 0
       = ([loop_body (disk 1024 []) [listener 1, gone 2, listener 3] ''sda'' 0 0],
          Failure WebSocketClosedError)"
  using fan_out_stops_at_first_failure
          [of "[listener 1, gone 2, listener 3]" "''sda''" 50 0 0 "disk 1024 []"]
  by (simp add: listener_def gone_def disk_def)

text \<open>
  C8, as stated, fails: with a closing client ahead of an open one, the open client
  receives nothing, and the scan of a two-sector file ends with a failure after its
  first pass.
\<close>

theorem delivery_failure_not_isolated:
  "send_progress_update [gone 1, listener 2] ''sda'' 50 0 = ([], Some WebSocketClosedError)
   \<and> snd (scan_loop (disk 1024 []) [gone 1, listener 2] ''sda'' 0 0)
       = Failure WebSocketClosedError
   \<and> map scanned_after (fst (scan_loop (disk 1024 []) [gone 1, listener 2] ''sda'' 0 0)) = [512]
   \<and> concat (map delivered (fst (scan_loop (disk 1024 []) [gone 1, listener 2] ''sda'' 0 0))) = []"
proof -
  have a: "0 < st_size (disk 1024 [])" "(0::nat) < st_size (disk 1024 [])"
    by (simp_all add: disk_def)
  have c: "\<not> list_all (\<lambda>c. \<not> is_closing c) [gone 1, listener 2]" by (simp add: gone_def)
  have d: "delivered (loop_body (disk 1024 []) [gone 1, listener 2] ''sda'' 0 0) = []"
    using percent_defined [OF a(1), of "0 + sector_size"]
    by (auto simp: loop_body_def Let_def send_progress_update_def for_clients_eq gone_def)
  have run: "scan_loop (disk 1024 []) [gone 1, listener 2] ''sda'' 0 0
      = ([loop_body (disk 1024 []) [gone 1, listener 2] ''sda'' 0 0], Failure WebSocketClosedError)"
    by (rule scan_loop_aborts [OF a(2) c])
  have send: "send_progress_update [gone 1, listener 2] ''sda'' 50 0
      = ([], Some WebSocketClosedError)"
    by (simp add: send_progress_update_def for_clients_eq gone_def)
  show ?thesis
    unfolding run using send d by (simp add: loop_body_counters)
qed

section \<open>The handler on the event loop\<close>

lemma loop_head_continue:
  assumes "s < st_size f" and "list_all (\<lambda>c. \<not> is_closing c) (connected_clients srv)"
  shows "loop_head srv drv f s b =
     srv\<lparr>wire := wire srv @ delivered (loop_body f (connected_clients srv) drv s b),
         sleeping := sleeping srv @
           [\<lparr>co_drive = drv, co_file = f, co_scanned = s + 512,
             co_bad = (if read_fails f s then b + 1 else b)\<rparr>]\<rparr>"
proof -
  have "0 < st_size f" using assms(1) by simp
  from loop_body_raised_open [OF assms(2) this, of drv s b] assms(1) show ?thesis
    by (simp add: loop_head_def Let_def loop_body_counters)
qed


lemma post_starts:
  assumes "files srv (''/dev/'' @ drv) = Some f" and "openable f" and "0 < st_size f"
    and "list_all (\<lambda>c. \<not> is_closing c) (connected_clients srv)"
  shows "ScanHandler_post srv drv =
     srv\<lparr>wire := wire srv @ delivered (loop_body f (connected_clients srv) drv 0 0),
         sleeping := sleeping srv @
           [\<lparr>co_drive = drv, co_file = f, co_scanned = 512,
             co_bad = (if read_fails f 0 then 1 else 0)\<rparr>]\<rparr>"
  using assms loop_head_continue [OF assms(3,4), of drv 0]
  by (simp add: ScanHandler_post_def)

lemma posts_accumulate:
  assumes "files srv (''/dev/'' @ drv) = Some f" and "openable f" and "0 < st_size f"
    and "list_all (\<lambda>c. \<not> is_closing c) (connected_clients srv)"
  shows "files (((\<lambda>s. ScanHandler_post s drv) ^^ n) srv) = files srv
       \<and> connected_clients (((\<lambda>s. ScanHandler_post s drv) ^^ n) srv) = connected_clients srv
       \<and> responses (((\<lambda>s. ScanHandler_post s drv) ^^ n) srv) = responses srv
       \<and> sleeping (((\<lambda>s. ScanHandler_post s drv) ^^ n) srv) =
           sleeping srv @ replicate n \<lparr>co_drive = drv, co_file = f, co_scanned = 512,
                                       co_bad = (if read_fails f 0 then 1 else 0)\<rparr>"
proof (induction n)
  case 0
  show ?case by simp
next
  case (Suc n)
  let ?s = "((\<lambda>s. ScanHandler_post s drv) ^^ n) srv"
  have a: "files ?s (''/dev/'' @ drv) = Some f" using Suc assms(1) by simp
  have b: "list_all (\<lambda>c. \<not> is_closing c) (connected_clients ?s)" using Suc assms(4) by simp
  show ?case
    using Suc by (simp add: post_starts [OF a assms(2,3) b] replicate_append_same)
qed


text \<open>
  C1, amended. The handler keeps no record of the scans in progress and never looks at
  the suspended coroutines: while every connected client can be written to, a request
  for a non-empty file that exists and can be opened starts a scan loop of its own,
  whatever is already running, and the caller is not answered at that point. After
  \<open>n\<close> such requests for one drive, \<open>n\<close> more scans of that drive are in progress and
  none has been rejected.
\<close>

theorem every_start_request_is_accepted:
  assumes "files srv (''/dev/'' @ drv) = Some f" and "openable f" and "0 < st_size f"
    and "list_all (\<lambda>c. \<not> is_closing c) (connected_clients srv)"
  shows "sleeping (ScanHandler_post srv drv) =
           sleeping srv @ [\<lparr>co_drive = drv, co_file = f, co_scanned = sector_size,
                             co_bad = (if read_fails f 0 then 1 else 0)\<rparr>]
       \<and> responses (ScanHandler_post srv drv) = responses srv
       \<and> length (filter (\<lambda>c. co_drive c = drv)
             (sleeping (((\<lambda>s. ScanHandler_post s drv) ^^ n) srv)))
           = length (filter (\<lambda>c. co_drive c = drv) (sleeping srv)) + n
       \<and> responses (((\<lambda>s. ScanHandler_post s drv) ^^ n) srv) = responses srv"
  using posts_accumulate [OF assms, of n]
  by (simp add: post_starts [OF assms] sector_size_def)

theorem every_start_request_is_accepted_witness:
  "map co_drive (sleeping (ScanHandler_post (idle_server (disk 5120 []) [listener 1]) ''sda''))
     = [''sda'']
   \<and> responses (ScanHandler_post (idle_server (disk 5120 []) [listener 1]) ''sda'') = []
   \<and> length (filter (\<lambda>c. co_drive c = ''sda'')
         (sleeping (((\<lambda>s. ScanHandler_post s ''sda'') ^^ 3)
            (idle_server (disk 5120 []) [listener 1])))) = 3
   \<and> responses (((\<lambda>s. ScanHandler_post s ''sda'') ^^ 3)
         (idle_server (disk 5120 []) [listener 1])) = []"
proof -
  let ?srv = "idle_server (disk 5120 []) [listener 1]"
  have h1: "files ?srv (''/dev/'' @ ''sda'') = Some (disk 5120 [])"
    by (simp add: idle_server_def dev_sda_def)
  have h2: "openable (disk 5120 [])" by (simp add: disk_def)
  have h3: "0 < st_size (disk 5120 [])" by (simp add: disk_def)
  have h4: "list_all (\<lambda>c. \<not> is_closing c) (connected_clients ?srv)"
    by (simp add: idle_server_def listener_def)
  have e: "sleeping ?srv = []" "responses ?srv = []" by (simp_all add: idle_server_def)
  from every_start_request_is_accepted [OF h1 h2 h3 h4, of 3]
  show ?thesis unfolding e by simp
qed

text \<open>
  C1, as stated, fails: two requests for \<^verbatim>\<open>sda\<close> leave two scans of \<^verbatim>\<open>sda\<close>
  in progress, and no response has been written.
\<close>

theorem second_scan_on_same_drive:
  "map co_drive
     (sleeping (ScanHandler_post (ScanHandler_post (idle_server (disk 1024 []) []) ''sda'') ''sda''))
     = [''sda'', ''sda'']
   \<and> responses (ScanHandler_post (ScanHandler_post (idle_server (disk 1024 []) []) ''sda'') ''sda'')
     = []"
proof -
  let ?srv = "idle_server (disk 1024 []) []"
  have h1: "files ?srv (''/dev/'' @ ''sda'') = Some (disk 1024 [])"
    by (simp add: idle_server_def dev_sda_def)
  have h2: "openable (disk 1024 [])" by (simp add: disk_def)
  have h3: "0 < st_size (disk 1024 [])" by (simp add: disk_def)
  have h4: "list_all (\<lambda>c. \<not> is_closing c) (connected_clients ?srv)"
    by (simp add: idle_server_def)
  have e: "sleeping ?srv = []" "responses ?srv = []" by (simp_all add: idle_server_def)
  have two: "((\<lambda>s. ScanHandler_post s ''sda'') ^^ Suc (Suc 0)) ?srv
      = ScanHandler_post (ScanHandler_post ?srv ''sda'') ''sda''" by simp
  from posts_accumulate [OF h1 h2 h3 h4, of "Suc (Suc 0)"]
  show ?thesis unfolding two e by simp
qed








end
